theory Spec2Isabelle
  imports Main "HOL-Library.Word"
begin

section \<open>Strings of the host language\<close>

text \<open>
  The component is written in TypeScript, whose strings are finite sequences of 16-bit
  code units. A string is therefore a list of 16-bit words; \<open>js\<close> embeds an ASCII
  literal, one code unit per character, so that examples stay readable.
\<close>

type_synonym code_unit = "16 word"
type_synonym jsstring = "code_unit list"

definition js :: "string \<Rightarrow> jsstring" where
  "js s = map of_char s"

subsection \<open>\<open>String.prototype.split\<close> with a string separator and no limit\<close>

text \<open>
  \<open>split_from sep acc s\<close> scans \<open>s\<close> from the left; \<open>acc\<close> holds, reversed, the
  code units of the piece being read. Where \<open>sep\<close> occurs the piece is closed and the
  scan resumes behind the occurrence; the end of the string closes the last piece. The
  function is only called with a non-empty separator, for which
  \<open>drop (length sep - 1) cs\<close> is what follows the occurrence that starts at \<open>c\<close>.
\<close>

fun split_from :: "jsstring \<Rightarrow> jsstring \<Rightarrow> jsstring \<Rightarrow> jsstring list" where
  "split_from sep acc [] = [rev acc]"
| "split_from sep acc (c # cs) =
     (if take (length sep) (c # cs) = sep
      then rev acc # split_from sep [] (drop (length sep - 1) cs)
      else split_from sep (c # acc) cs)"

text \<open>
  \<open>s.split(sep)\<close>: the empty separator cuts between all code units (and gives no
  piece at all for the empty string); any other separator gives at least one piece, so
  that \<open>"".split(" ")\<close> is \<open>[""]\<close>.
\<close>

definition split :: "jsstring \<Rightarrow> jsstring \<Rightarrow> jsstring list" where
  "split s sep = (if sep = [] then map (\<lambda>c. [c]) s else split_from sep [] s)"

subsection \<open>\<open>Array.prototype.join\<close> on an array of strings\<close>

fun join :: "jsstring list \<Rightarrow> jsstring \<Rightarrow> jsstring" where
  "join [] sep = []"
| "join [x] sep = x"
| "join (x # y # ys) sep = x @ sep @ join (y # ys) sep"

subsection \<open>\<open>String.prototype.trim\<close>\<close>

text \<open>
  The code units that \<open>trim\<close> strips: the WhiteSpace and LineTerminator productions of
  ECMAScript (TAB, VT, FF, ZWNBSP, the Unicode space separators, LF, CR, LS, PS). All of
  them lie in the basic plane, so each is a single code unit.
\<close>

definition isWhiteSpace :: "code_unit \<Rightarrow> bool" where
  "isWhiteSpace c \<longleftrightarrow>
     c = 0x0009 \<or> c = 0x000A \<or> c = 0x000B \<or> c = 0x000C \<or> c = 0x000D \<or>
     c = 0x0020 \<or> c = 0x00A0 \<or> c = 0x1680 \<or>
     (0x2000 \<le> c \<and> c \<le> 0x200A) \<or>
     c = 0x2028 \<or> c = 0x2029 \<or> c = 0x202F \<or> c = 0x205F \<or> c = 0x3000 \<or>
     c = 0xFEFF"

definition trim :: "jsstring \<Rightarrow> jsstring" where
  "trim s = rev (dropWhile isWhiteSpace (rev (dropWhile isWhiteSpace s)))"

subsection \<open>lodash \<open>isEmpty\<close> on a string that may be undefined\<close>

text \<open>\<open>None\<close> stands for \<open>undefined\<close>, which lodash counts as empty.\<close>

fun isEmpty :: "jsstring option \<Rightarrow> bool" where
  "isEmpty None = True"
| "isEmpty (Some s) = (length s = 0)"


section \<open>The scopes editor (\<open>modules/form/src/addons/scopes.tsx\<close>)\<close>

subsection \<open>Data\<close>

record ScopeInterface =
  "value" :: jsstring

text \<open>
  The properties the logic reads: \<open>value\<close> (the space-separated scopes owned by the
  parent, possibly undefined) and \<open>defaultValue\<close>. The label, \<open>required\<close>, the
  placeholder and \<open>onBlur\<close> only reach the markup. \<open>onChange\<close> is the parent's
  callback: its calls are recorded in the machine below.
\<close>

record ScopesPropsInterface =
  defaultValue :: jsstring
  value_prop :: "jsstring option"

text \<open>The three \<open>useState\<close> cells.\<close>

record hooks =
  scopeValue :: jsstring
  scopes :: "ScopeInterface list"
  errorMessage :: jsstring

definition initial_hooks :: hooks where
  "initial_hooks = \<lparr>scopeValue = [], scopes = [], errorMessage = []\<rparr>"

text \<open>
  A handler does not change the cells itself: it calls their setters, and the calls take
  effect together at the next render. A handler is thus a function from the cells it
  reads to the list of setter calls it makes, in order.
\<close>

datatype update =
    SetScopeValue jsstring
  | SetScopes "ScopeInterface list"
  | SetErrorMessage jsstring

fun apply_update :: "hooks \<Rightarrow> update \<Rightarrow> hooks" where
  "apply_update h (SetScopeValue s) = h\<lparr>scopeValue := s\<rparr>"
| "apply_update h (SetScopes l) = h\<lparr>scopes := l\<rparr>"
| "apply_update h (SetErrorMessage s) = h\<lparr>errorMessage := s\<rparr>"

definition commit :: "update list \<Rightarrow> hooks \<Rightarrow> hooks" where
  "commit us h = foldl apply_update h us"

fun is_SetScopes :: "update \<Rightarrow> bool" where
  "is_SetScopes (SetScopes l) = True"
| "is_SetScopes u = False"

subsection \<open>The functions of the component\<close>

definition SCOPE_SEPARATOR :: jsstring where
  "SCOPE_SEPARATOR = js '' ''"

definition buildScope :: "jsstring \<Rightarrow> ScopeInterface" where
  "buildScope scope = \<lparr>value = scope\<rparr>"

definition buildScopeString :: "ScopeInterface \<Rightarrow> jsstring" where
  "buildScopeString scope = value scope"

definition buildScopesString :: "ScopeInterface list \<Rightarrow> jsstring" where
  "buildScopesString ss = join (map buildScopeString ss) SCOPE_SEPARATOR"

text \<open>The effect on \<open>value\<close>: nothing for an empty value, else the list is rebuilt.\<close>

definition useEffect_value :: "jsstring option \<Rightarrow> update list" where
  "useEffect_value v =
     (if isEmpty v then []
      else [SetScopes (map buildScope (split (the v) SCOPE_SEPARATOR))])"

text \<open>
  The effect on \<open>scopes\<close> calls \<open>fireOnChangeEvent\<close>, which hands the parent an event
  whose \<open>target.value\<close> is the serialized list; the event is modelled by that string.
\<close>

definition fireOnChangeEvent :: "ScopeInterface list \<Rightarrow> jsstring" where
  "fireOnChangeEvent ss = buildScopesString ss"

definition updateScopeInputFields :: "ScopeInterface \<Rightarrow> update list" where
  "updateScopeInputFields scope = [SetScopeValue (value scope)]"

text \<open>
  One round of the \<open>forEach\<close> in \<open>handleScopeAdd\<close>: the items of \<open>output\<close> with the
  value of the visited scope are collected, and the scope is pushed when there are none.
\<close>

definition push_unless_existing :: "ScopeInterface list \<Rightarrow> ScopeInterface \<Rightarrow> ScopeInterface list" where
  "push_unless_existing output scope =
     (let existing = filter (\<lambda>item. value item = value scope) output
      in if length existing \<noteq> 0 then output else output @ [scope])"

definition handleScopeAdd :: "hooks \<Rightarrow> update list" where
  "handleScopeAdd h =
     (if isEmpty (Some (scopeValue h)) then []
      else SetErrorMessage []
         # SetScopes (foldl push_unless_existing [\<lparr>value = scopeValue h\<rparr>] (scopes h))
         # updateScopeInputFields \<lparr>value = []\<rparr>)"

definition handleLabelRemove :: "hooks \<Rightarrow> jsstring \<Rightarrow> update list" where
  "handleLabelRemove h scopeParam =
     (if isEmpty (Some scopeParam) then []
      else [SetScopes (filter (\<lambda>scope. \<not> (scope = buildScope scopeParam)) (scopes h))])"

definition keyPressed :: "hooks \<Rightarrow> jsstring \<Rightarrow> update list" where
  "keyPressed h key = (if key = js ''Enter'' then handleScopeAdd h else [])"

text \<open>The \<open>onChange\<close> of the text input.\<close>

definition input_onChange :: "jsstring \<Rightarrow> update list" where
  "input_onChange data_value = [SetScopeValue (trim data_value)]"

text \<open>
  What the render shows of the state: whether the error message is visible, and one
  label per scope, in list order, with its text and with whether it carries the delete
  icon (whose click calls \<open>handleLabelRemove\<close> with that text).
\<close>

definition message_visible :: "hooks \<Rightarrow> bool" where
  "message_visible h = (errorMessage h \<noteq> [])"

definition render_labels :: "ScopesPropsInterface \<Rightarrow> hooks \<Rightarrow> (jsstring \<times> bool) list" where
  "render_labels p h =
     map (\<lambda>eachScope. let scope = value eachScope
                      in if scope = defaultValue p then (scope, False) else (scope, True))
         (scopes h)"

subsection \<open>The component as a machine\<close>

text \<open>
  The machine holds the current properties, the cells, and the calls of \<open>onChange\<close> made
  so far, oldest first. \<open>flush\<close> is a render after a batch of setter calls: the cells
  are updated, and the effect on \<open>scopes\<close> runs when \<open>setScopes\<close> was called. (Every
  array that the component passes to \<open>setScopes\<close> is freshly built, so it is never
  identical to the previous one, whatever it contains.)
\<close>

record machine =
  props :: ScopesPropsInterface
  cells :: hooks
  onChange_calls :: "jsstring list"

definition flush :: "update list \<Rightarrow> machine \<Rightarrow> machine" where
  "flush us m =
     (let h = commit us (cells m)
      in m\<lparr>cells := h,
            onChange_calls :=
              (if list_ex is_SetScopes us
               then onChange_calls m @ [fireOnChangeEvent (scopes h)]
               else onChange_calls m)\<rparr>)"

text \<open>
  Mounting: the first render shows the initial cells; then both effects run in the order
  they are declared, the effect on \<open>value\<close> queueing its setter call and the effect on
  \<open>scopes\<close> reporting the list of the first render; then the queued call is rendered.
\<close>

definition mount :: "ScopesPropsInterface \<Rightarrow> machine" where
  "mount p =
     (let queued = useEffect_value (value_prop p);
          m = \<lparr>props = p, cells = initial_hooks,
               onChange_calls = [fireOnChangeEvent (scopes initial_hooks)]\<rparr>
      in flush queued m)"

datatype event =
    InputChange jsstring
  | KeyDown jsstring
  | ClickAdd
  | ClickDelete nat
  | ValueProp "jsstring option"

text \<open>
  \<open>ClickDelete i\<close> is a click on the delete icon of the \<open>i\<close>-th label; a label without
  the icon (or an index beyond the list) offers nothing to click. \<open>ValueProp v\<close> is a
  render of the parent with a new \<open>value\<close>; the effect on \<open>value\<close> runs when it differs
  from that of the previous render.
\<close>

fun dispatch :: "machine \<Rightarrow> event \<Rightarrow> machine" where
  "dispatch m (InputChange data_value) = flush (input_onChange data_value) m"
| "dispatch m (KeyDown key) = flush (keyPressed (cells m) key) m"
| "dispatch m ClickAdd = flush (handleScopeAdd (cells m)) m"
| "dispatch m (ClickDelete i) =
     (if i < length (scopes (cells m)) \<and> snd (render_labels (props m) (cells m) ! i)
      then flush (handleLabelRemove (cells m) (fst (render_labels (props m) (cells m) ! i))) m
      else m)"
| "dispatch m (ValueProp v) =
     (let m' = m\<lparr>props := (props m)\<lparr>value_prop := v\<rparr>\<rparr>
      in if v = value_prop (props m) then m' else flush (useEffect_value v) m')"

definition run :: "ScopesPropsInterface \<Rightarrow> event list \<Rightarrow> machine" where
  "run p evs = foldl dispatch (mount p) evs"


section \<open>Splitting and joining\<close>

lemma split_from_ne: "split_from sep acc s \<noteq> []"
  by (induction sep acc s rule: split_from.induct) auto

lemma join_Cons: "join (x # xs) sep = (if xs = [] then x else x @ sep @ join xs sep)"
  by (cases xs) auto

lemma join_split_from: "sep \<noteq> [] \<Longrightarrow> join (split_from sep acc s) sep = rev acc @ s"
proof (induction sep acc s rule: split_from.induct)
  case (1 sep acc)
  show ?case by simp
next
  case (2 sep acc c cs)
  let ?r = "drop (length sep - 1) cs"
  show ?case
  proof (cases "take (length sep) (c # cs) = sep")
    case True
    have "drop (length sep) (c # cs) = ?r"
      using \<open>sep \<noteq> []\<close> by (cases sep) auto
    then have whole: "sep @ ?r = c # cs"
      using True append_take_drop_id [of "length sep" "c # cs"] by simp
    have "join (split_from sep acc (c # cs)) sep = join (rev acc # split_from sep [] ?r) sep"
      using True by simp
    also have "\<dots> = rev acc @ sep @ join (split_from sep [] ?r) sep"
      by (simp add: join_Cons split_from_ne)
    also have "\<dots> = rev acc @ sep @ ?r"
      using 2(1) [OF True \<open>sep \<noteq> []\<close>] by simp
    finally show ?thesis using whole by simp
  next
    case False
    with 2 show ?thesis by simp
  qed
qed

lemma join_split: "join (split s sep) sep = s"
proof (cases "sep = []")
  case True
  have "join (map (\<lambda>c. [c]) s) [] = s" for s :: jsstring
    by (induction s) (auto simp: join_Cons)
  with True show ?thesis by (simp add: split_def)
next
  case False
  then show ?thesis by (simp add: split_def join_split_from)
qed

lemma split_from_piece:
  "d \<notin> set t \<Longrightarrow> split_from [d] acc t = [rev acc @ t]"
  by (induction t arbitrary: acc) auto

lemma split_from_sep:
  "d \<notin> set t \<Longrightarrow> split_from [d] acc (t @ d # r) = (rev acc @ t) # split_from [d] [] r"
  by (induction t arbitrary: acc) auto

lemma split_from_join:
  "ts \<noteq> [] \<Longrightarrow> \<forall>t\<in>set ts. d \<notin> set t \<Longrightarrow> split_from [d] [] (join ts [d]) = ts"
proof (induction ts)
  case Nil then show ?case by simp
next
  case (Cons x ys)
  then show ?case by (cases ys) (simp_all add: split_from_piece split_from_sep)
qed

lemma length_split_from: "length (split_from [d] acc s) = Suc (count_list s d)"
  by (induction s arbitrary: acc) auto

lemma split_from_free:
  "d \<notin> set acc \<Longrightarrow> t \<in> set (split_from [d] acc s) \<Longrightarrow> d \<notin> set t"
proof (induction s arbitrary: acc)
  case Nil
  then show ?case by simp
next
  case (Cons c cs)
  show ?case
  proof (cases "c = d")
    case True
    with Cons.prems have "t = rev acc \<or> t \<in> set (split_from [d] [] cs)" by simp
    then show ?thesis using Cons.IH [of "[]"] Cons.prems(1) by auto
  next
    case False
    with Cons.prems have "t \<in> set (split_from [d] (c # acc) cs)" by simp
    then show ?thesis using Cons.IH [of "c # acc"] Cons.prems(1) False by auto
  qed
qed


section \<open>Facts about the functions of the component\<close>

lemma SEP: "SCOPE_SEPARATOR = [0x20]" by (simp add: SCOPE_SEPARATOR_def js_def)

lemma ScopeInterface_eq_iff: "(s = t) \<longleftrightarrow> (value s = value t)" for s t :: ScopeInterface
  by (cases s, cases t) simp

lemma flush_Nil: "flush [] m = m"
  by (simp add: flush_def commit_def)

lemma scopes_commit_SetScopes: "scopes (commit [SetScopes l] h) = l"
  by (simp add: commit_def)

lemma map_buildScope_value: "map (buildScope \<circ> value) ts = ts"
  by (induction ts) (simp_all add: buildScope_def)

lemma buildScopesString_join: "buildScopesString ss = join (map value ss) [0x20]"
  unfolding buildScopesString_def SEP
  by (simp add: buildScopeString_def [abs_def])

lemma buildScopesString_parsed:
  "buildScopesString (map buildScope (split v SCOPE_SEPARATOR)) = v"
  by (simp add: buildScopesString_def buildScopeString_def [abs_def] o_def buildScope_def join_split)

lemma parse_serialized:
  assumes free: "\<forall>t\<in>set ts. \<forall>c\<in>set (value t). [c] \<noteq> SCOPE_SEPARATOR"
    and ne: "ts \<noteq> []"
  shows "map buildScope (split (buildScopesString ts) SCOPE_SEPARATOR) = ts"
proof -
  from free have "\<forall>t\<in>set (map value ts). (0x20::code_unit) \<notin> set t"
    by (auto simp: SEP)
  moreover from ne have "map value ts \<noteq> []" by simp
  ultimately have "split_from [0x20] [] (join (map value ts) [0x20]) = map value ts"
    by (rule split_from_join [rotated])
  then show ?thesis
    by (simp add: buildScopesString_join split_def SEP map_buildScope_value)
qed

lemma push_unless_existing_eq:
  "push_unless_existing out s = (if value s \<in> value ` set out then out else out @ [s])"
proof -
  have "filter (\<lambda>item. value item = value s) out = [] \<longleftrightarrow> value s \<notin> value ` set out"
    unfolding filter_empty_conv image_iff by metis
  then show ?thesis by (simp add: push_unless_existing_def Let_def)
qed

lemma remdups_snoc: "remdups (ys @ [s]) = filter (\<lambda>t. t \<noteq> s) (remdups ys) @ [s]"
  by (induction ys) auto

lemma first_occurrences_Cons:
  "rev (remdups (rev (s # ss))) = s # filter (\<lambda>t. t \<noteq> s) (rev (remdups (rev ss)))"
  by (simp add: remdups_snoc rev_filter)

lemma foldl_push_unless_existing:
  "foldl push_unless_existing out ss =
     out @ filter (\<lambda>t. value t \<notin> value ` set out) (rev (remdups (rev ss)))"
proof (induction ss arbitrary: out)
  case Nil
  show ?case by simp
next
  case (Cons s ss)
  let ?firsts = "rev (remdups (rev ss))"
  have step: "foldl push_unless_existing out (s # ss) =
      foldl push_unless_existing (push_unless_existing out s) ss"
    by simp
  show ?case
  proof (cases "value s \<in> value ` set out")
    case True
    then have "filter (\<lambda>t. value t \<notin> value ` set out) (filter (\<lambda>t. t \<noteq> s) ?firsts)
             = filter (\<lambda>t. value t \<notin> value ` set out) ?firsts"
      by (auto intro: filter_cong)
    moreover have "push_unless_existing out s = out"
      using True by (simp add: push_unless_existing_eq)
    ultimately show ?thesis
      using True Cons.IH [of out] unfolding step first_occurrences_Cons by simp
  next
    case False
    have "filter (\<lambda>t. value t \<notin> value ` set (out @ [s])) ?firsts
        = filter (\<lambda>t. value t \<notin> value ` set out) (filter (\<lambda>t. t \<noteq> s) ?firsts)"
      by (auto simp: ScopeInterface_eq_iff intro: filter_cong)
    moreover have "push_unless_existing out s = out @ [s]"
      using False by (simp add: push_unless_existing_eq)
    ultimately show ?thesis
      using False Cons.IH [of "out @ [s]"] unfolding step first_occurrences_Cons by simp
  qed
qed

lemma foldl_push_new:
  "foldl push_unless_existing [\<lparr>value = x\<rparr>] ss =
     \<lparr>value = x\<rparr> # filter (\<lambda>t. value t \<noteq> x) (rev (remdups (rev ss)))"
  by (simp add: foldl_push_unless_existing)

lemma handleScopeAdd_updates:
  "scopeValue h \<noteq> [] \<Longrightarrow>
   handleScopeAdd h =
     [SetErrorMessage [],
      SetScopes (\<lparr>value = scopeValue h\<rparr> #
                 filter (\<lambda>t. value t \<noteq> scopeValue h) (rev (remdups (rev (scopes h))))),
      SetScopeValue []]"
  by (simp add: handleScopeAdd_def updateScopeInputFields_def foldl_push_new)

lemma scopes_after_add:
  "scopeValue h \<noteq> [] \<Longrightarrow>
   scopes (commit (handleScopeAdd h) h) =
     \<lparr>value = scopeValue h\<rparr> #
       filter (\<lambda>t. value t \<noteq> scopeValue h) (rev (remdups (rev (scopes h))))"
  by (simp add: handleScopeAdd_updates commit_def)

lemma handleScopeAdd_empty: "scopeValue h = [] \<Longrightarrow> handleScopeAdd h = []"
  by (simp add: handleScopeAdd_def)

lemma handleLabelRemove_updates:
  "handleLabelRemove h s =
     (if s = [] then [] else [SetScopes (filter (\<lambda>t. value t \<noteq> s) (scopes h))])"
  by (simp add: handleLabelRemove_def buildScope_def ScopeInterface_eq_iff)

lemma scopes_after_remove:
  "scopes (commit (handleLabelRemove h s) h) =
     (if s = [] then scopes h else filter (\<lambda>t. value t \<noteq> s) (scopes h))"
  by (simp add: handleLabelRemove_updates commit_def)

lemma trim_whitespace_only: "\<forall>c\<in>set w. isWhiteSpace c \<Longrightarrow> trim w = []"
proof -
  assume "\<forall>c\<in>set w. isWhiteSpace c"
  then have "dropWhile isWhiteSpace w = []" by simp
  then show ?thesis by (simp only: trim_def rev.simps dropWhile.simps)
qed


section \<open>The error message is never written with text\<close>

lemma errorMessage_commit:
  "errorMessage h = [] \<Longrightarrow> \<forall>s. SetErrorMessage s \<in> set us \<longrightarrow> s = [] \<Longrightarrow>
   errorMessage (commit us h) = []"
unfolding commit_def
proof (induction us arbitrary: h)
  case Nil
  then show ?case by simp
next
  case (Cons u us)
  from Cons.prems have "errorMessage (apply_update h u) = []"
    by (cases u) auto
  with Cons show ?case by simp
qed

lemma errorMessage_writes:
  "SetErrorMessage s \<in> set (handleScopeAdd h) \<longrightarrow> s = []"
  "SetErrorMessage s \<notin> set (handleLabelRemove h x)"
  "SetErrorMessage s \<in> set (keyPressed h k) \<longrightarrow> s = []"
  "SetErrorMessage s \<notin> set (input_onChange w)"
  "SetErrorMessage s \<notin> set (useEffect_value v)"
  by (auto simp: handleScopeAdd_def updateScopeInputFields_def handleLabelRemove_def
        keyPressed_def input_onChange_def useEffect_value_def split: if_splits)

lemma errorMessage_flush:
  "errorMessage (cells m) = [] \<Longrightarrow> \<forall>s. SetErrorMessage s \<in> set us \<longrightarrow> s = [] \<Longrightarrow>
   errorMessage (cells (flush us m)) = []"
  by (simp add: flush_def Let_def errorMessage_commit)

lemma errorMessage_dispatch:
  "errorMessage (cells m) = [] \<Longrightarrow> errorMessage (cells (dispatch m e)) = []"
proof (cases e)
  case (ValueProp v)
  assume "errorMessage (cells m) = []"
  then have "errorMessage (cells (flush (useEffect_value v) (m\<lparr>props := (props m)\<lparr>value_prop := v\<rparr>\<rparr>))) = []"
    by (intro errorMessage_flush) (simp_all add: errorMessage_writes)
  with \<open>errorMessage (cells m) = []\<close> ValueProp show ?thesis by (simp add: Let_def)
qed (auto intro!: errorMessage_flush simp: errorMessage_writes)

lemma errorMessage_mount: "errorMessage (cells (mount p)) = []"
  unfolding mount_def Let_def
  by (rule errorMessage_flush) (simp_all add: initial_hooks_def errorMessage_writes)

lemma errorMessage_foldl:
  "errorMessage (cells m) = [] \<Longrightarrow> errorMessage (cells (foldl dispatch m evs)) = []"
  by (induction evs arbitrary: m) (simp_all add: errorMessage_dispatch)


section \<open>The claims\<close>

text \<open>The definitions that the examples below evaluate.\<close>

lemmas eval_defs =
  run_def mount_def flush_def commit_def useEffect_value_def split_def SCOPE_SEPARATOR_def
  js_def buildScope_def input_onChange_def trim_def isWhiteSpace_def handleScopeAdd_def
  handleLabelRemove_def keyPressed_def push_unless_existing_def updateScopeInputFields_def
  fireOnChangeEvent_def buildScopesString_def buildScopeString_def initial_hooks_def
  render_labels_def Let_def

subsection \<open>Adding a token\<close>

text \<open>
  Claim C1 (what a committed add builds). As stated, the claim has every existing token
  whose value differs from the new one retained, duplicates included. The loop tests
  each existing token against all of \<open>output\<close>, not against the new token alone, so
  a token whose value was already pushed is skipped too. A component mounted with the
  value \<open>a a\<close> holds two tokens \<open>a\<close>; adding \<open>b\<close> leaves \<open>b, a\<close>, not
  \<open>b, a, a\<close>.
\<close>

theorem handleScopeAdd_retains_all_counterexample:
  "scopes (cells (run \<lparr>defaultValue = js ''openid'', value_prop = Some (js ''a a'')\<rparr>
                      [InputChange (js ''b'')]))
     = [\<lparr>value = js ''a''\<rparr>, \<lparr>value = js ''a''\<rparr>]
   \<and> scopeValue (cells (run \<lparr>defaultValue = js ''openid'', value_prop = Some (js ''a a'')\<rparr>
                      [InputChange (js ''b'')])) = js ''b''
   \<and> scopes (cells (run \<lparr>defaultValue = js ''openid'', value_prop = Some (js ''a a'')\<rparr>
                      [InputChange (js ''b''), ClickAdd]))
     = [\<lparr>value = js ''b''\<rparr>, \<lparr>value = js ''a''\<rparr>]
   \<and> scopes (cells (run \<lparr>defaultValue = js ''openid'', value_prop = Some (js ''a a'')\<rparr>
                      [InputChange (js ''b''), ClickAdd]))
     \<noteq> \<lparr>value = js ''b''\<rparr> #
         filter (\<lambda>t. value t \<noteq> js ''b'') [\<lparr>value = js ''a''\<rparr>, \<lparr>value = js ''a''\<rparr>]"
  by (simp add: eval_defs)

text \<open>
  Claim C1, amended. An add committed with a non-empty pending token \<open>x\<close> makes three
  setter calls: the error message is set to the empty string, the list is set to \<open>x\<close>
  followed by the first occurrence of each existing value other than \<open>x\<close>, in the
  existing order (\<open>rev (remdups (rev l))\<close> keeps of each element of \<open>l\<close> its first
  occurrence), and the pending input is set to the empty string.
\<close>

theorem handleScopeAdd_first_occurrences:
  assumes "scopeValue h \<noteq> []"
  shows "handleScopeAdd h =
           [SetErrorMessage [],
            SetScopes (\<lparr>value = scopeValue h\<rparr> #
                       filter (\<lambda>t. value t \<noteq> scopeValue h) (rev (remdups (rev (scopes h))))),
            SetScopeValue []]
       \<and> scopes (commit (handleScopeAdd h) h) =
           \<lparr>value = scopeValue h\<rparr> #
             filter (\<lambda>t. value t \<noteq> scopeValue h) (rev (remdups (rev (scopes h))))"
  using assms handleScopeAdd_updates [of h] scopes_after_add [of h] by simp

theorem handleScopeAdd_first_occurrences_witness:
  "scopes (commit (handleScopeAdd
       \<lparr>scopeValue = js ''b'',
        scopes = [\<lparr>value = js ''a''\<rparr>, \<lparr>value = js ''b''\<rparr>, \<lparr>value = js ''a''\<rparr>, \<lparr>value = js ''c''\<rparr>],
        errorMessage = []\<rparr>)
       \<lparr>scopeValue = js ''b'',
        scopes = [\<lparr>value = js ''a''\<rparr>, \<lparr>value = js ''b''\<rparr>, \<lparr>value = js ''a''\<rparr>, \<lparr>value = js ''c''\<rparr>],
        errorMessage = []\<rparr>)
   = [\<lparr>value = js ''b''\<rparr>, \<lparr>value = js ''a''\<rparr>, \<lparr>value = js ''c''\<rparr>]"
  using handleScopeAdd_first_occurrences
    [of "\<lparr>scopeValue = js ''b'',
        scopes = [\<lparr>value = js ''a''\<rparr>, \<lparr>value = js ''b''\<rparr>, \<lparr>value = js ''a''\<rparr>, \<lparr>value = js ''c''\<rparr>],
        errorMessage = []\<rparr>"]
  by (simp add: js_def commit_def)

text \<open>
  Claim C2 (add-front, add-replace). With a non-empty pending token \<open>x\<close>: on the
  duplicate-free list \<open>[a, b, c]\<close> without \<open>x\<close> the add yields \<open>[x, a, b, c]\<close>, and on
  the duplicate-free list \<open>[a, x, c]\<close> it yields \<open>[x, a, c]\<close>.
\<close>

theorem add_front_and_replace:
  assumes "x \<noteq> []"
  shows "(distinct [a, b, c] \<and> x \<notin> set [a, b, c] \<longrightarrow>
            scopes (commit (handleScopeAdd \<lparr>scopeValue = x, scopes = map buildScope [a, b, c], errorMessage = e\<rparr>)
                           \<lparr>scopeValue = x, scopes = map buildScope [a, b, c], errorMessage = e\<rparr>)
              = map buildScope [x, a, b, c])
       \<and> (distinct [a, x, c] \<longrightarrow>
            scopes (commit (handleScopeAdd \<lparr>scopeValue = x, scopes = map buildScope [a, x, c], errorMessage = e\<rparr>)
                           \<lparr>scopeValue = x, scopes = map buildScope [a, x, c], errorMessage = e\<rparr>)
              = map buildScope [x, a, c])"
proof -
  let ?h = "\<lambda>l. \<lparr>scopeValue = x, scopes = map buildScope l, errorMessage = e\<rparr>"
  have "scopes (commit (handleScopeAdd (?h [a, b, c])) (?h [a, b, c])) = map buildScope [x, a, b, c]"
    if "distinct [a, b, c]" "x \<notin> set [a, b, c]"
    using that assms scopes_after_add [of "?h [a, b, c]"] by (auto simp: buildScope_def)
  moreover
  have "scopes (commit (handleScopeAdd (?h [a, x, c])) (?h [a, x, c])) = map buildScope [x, a, c]"
    if "distinct [a, x, c]"
    using that assms scopes_after_add [of "?h [a, x, c]"] by (auto simp: buildScope_def)
  ultimately show ?thesis by blast
qed

theorem add_front_and_replace_witness:
  "scopes (commit (handleScopeAdd \<lparr>scopeValue = js ''x'', scopes = map buildScope [js ''a'', js ''b'', js ''c''], errorMessage = []\<rparr>)
                  \<lparr>scopeValue = js ''x'', scopes = map buildScope [js ''a'', js ''b'', js ''c''], errorMessage = []\<rparr>)
     = map buildScope [js ''x'', js ''a'', js ''b'', js ''c'']
   \<and> scopes (commit (handleScopeAdd \<lparr>scopeValue = js ''x'', scopes = map buildScope [js ''a'', js ''x'', js ''c''], errorMessage = []\<rparr>)
                  \<lparr>scopeValue = js ''x'', scopes = map buildScope [js ''a'', js ''x'', js ''c''], errorMessage = []\<rparr>)
     = map buildScope [js ''x'', js ''a'', js ''c'']"
  using add_front_and_replace [of "js ''x''" "js ''a''" "js ''b''" "js ''c''" "[]"]
  by (simp add: js_def buildScope_def)

subsection \<open>Serializing and parsing\<close>

text \<open>
  Claim C3 (round trip). Take any list of tokens whose values are non-empty and contain no
  separator (a whitespace-free value contains none, the separator being the space).
  Serializing the list and parsing the string again gives the list back: in a component
  mounted with that string as its \<open>value\<close>, in any component when the list is not
  empty, and in a component that holds the list. (The empty list serializes to the empty
  string, on which the parse does nothing: the list back is then the one the component
  had, which is empty after mounting.) The tokens need not be unique.
\<close>

theorem roundtrip_serialize_parse:
  assumes "\<forall>t\<in>set ts. value t \<noteq> [] \<and> (\<forall>c\<in>set (value t). [c] \<noteq> SCOPE_SEPARATOR)"
  shows "scopes (cells (mount \<lparr>defaultValue = d, value_prop = Some (buildScopesString ts)\<rparr>)) = ts
       \<and> (ts \<noteq> [] \<longrightarrow> scopes (commit (useEffect_value (Some (buildScopesString ts))) h) = ts)
       \<and> (scopes h = ts \<longrightarrow> scopes (commit (useEffect_value (Some (buildScopesString ts))) h) = ts)"
proof -
  have free: "\<forall>t\<in>set ts. \<forall>c\<in>set (value t). [c] \<noteq> SCOPE_SEPARATOR"
    using assms by blast
  have empty: "scopes (commit (useEffect_value (Some (buildScopesString ts))) h') = scopes h'"
    if "ts = []" for h'
    using that by (simp add: useEffect_value_def buildScopesString_def commit_def)
  have full: "scopes (commit (useEffect_value (Some (buildScopesString ts))) h') = ts"
    if "ts \<noteq> []" for h'
  proof -
    from that obtain t ts' where ts: "ts = t # ts'" by (cases ts) auto
    with assms have "value t \<noteq> []" by simp
    with ts have "buildScopesString ts \<noteq> []"
      by (simp add: buildScopesString_join join_Cons)
    then show ?thesis
      using parse_serialized [OF free that]
      by (simp add: useEffect_value_def scopes_commit_SetScopes)
  qed
  have "scopes (cells (mount \<lparr>defaultValue = d, value_prop = Some (buildScopesString ts)\<rparr>)) = ts"
    using full [of initial_hooks] empty [of initial_hooks]
    by (cases "ts = []") (auto simp: mount_def flush_def Let_def initial_hooks_def)
  moreover have "scopes h = ts \<longrightarrow> scopes (commit (useEffect_value (Some (buildScopesString ts))) h) = ts"
    using full empty by (cases "ts = []") auto
  ultimately show ?thesis using full by blast
qed

theorem roundtrip_serialize_parse_witness:
  "buildScopesString [\<lparr>value = js ''openid''\<rparr>, \<lparr>value = js ''profile''\<rparr>] = js ''openid profile''
   \<and> scopes (cells (mount \<lparr>defaultValue = js ''openid'', value_prop = Some (js ''openid profile'')\<rparr>))
       = [\<lparr>value = js ''openid''\<rparr>, \<lparr>value = js ''profile''\<rparr>]"
proof -
  let ?ts = "[\<lparr>value = js ''openid''\<rparr>, \<lparr>value = js ''profile''\<rparr>]"
  have h: "\<forall>t\<in>set ?ts. value t \<noteq> [] \<and> (\<forall>c\<in>set (value t). [c] \<noteq> SCOPE_SEPARATOR)"
    by (simp add: js_def SCOPE_SEPARATOR_def)
  have s: "buildScopesString ?ts = js ''openid profile''"
    by (simp add: buildScopesString_def buildScopeString_def js_def SCOPE_SEPARATOR_def)
  from roundtrip_serialize_parse [OF h, of "js ''openid''" initial_hooks] s show ?thesis
    by simp
qed

subsection \<open>Removing a token\<close>

text \<open>
  Claim C4 (remove). With the empty string the remove makes no setter call, so nothing is
  rendered and nothing reported. With a non-empty string \<open>s\<close> it sets the list to the
  tokens whose value is not \<open>s\<close>, in their order. When no token has the value \<open>s\<close>,
  the list it sets is the list as it was.
\<close>

theorem handleLabelRemove_filters:
  "(s = [] \<longrightarrow> handleLabelRemove (cells m) s = [] \<and> flush (handleLabelRemove (cells m) s) m = m)
   \<and> (s \<noteq> [] \<longrightarrow>
        scopes (commit (handleLabelRemove (cells m) s) (cells m)) =
          filter (\<lambda>t. value t \<noteq> s) (scopes (cells m)))
   \<and> (s \<notin> value ` set (scopes (cells m)) \<longrightarrow>
        scopes (commit (handleLabelRemove (cells m) s) (cells m)) = scopes (cells m))"
proof -
  have "filter (\<lambda>t. value t \<noteq> s) (scopes (cells m)) = scopes (cells m)"
    if "s \<notin> value ` set (scopes (cells m))"
    using that by (auto simp: filter_id_conv)
  then show ?thesis
    by (simp add: handleLabelRemove_updates commit_def flush_Nil)
qed

theorem handleLabelRemove_filters_witness:
  "scopes (commit (handleLabelRemove
       (cells (mount \<lparr>defaultValue = js ''openid'', value_prop = Some (js ''a b c'')\<rparr>)) (js ''b''))
       (cells (mount \<lparr>defaultValue = js ''openid'', value_prop = Some (js ''a b c'')\<rparr>)))
     = [\<lparr>value = js ''a''\<rparr>, \<lparr>value = js ''c''\<rparr>]
   \<and> scopes (commit (handleLabelRemove
       (cells (mount \<lparr>defaultValue = js ''openid'', value_prop = Some (js ''a b c'')\<rparr>)) (js ''d''))
       (cells (mount \<lparr>defaultValue = js ''openid'', value_prop = Some (js ''a b c'')\<rparr>)))
     = [\<lparr>value = js ''a''\<rparr>, \<lparr>value = js ''b''\<rparr>, \<lparr>value = js ''c''\<rparr>]"
proof -
  let ?m = "mount \<lparr>defaultValue = js ''openid'', value_prop = Some (js ''a b c'')\<rparr>"
  have l: "scopes (cells ?m) = [\<lparr>value = js ''a''\<rparr>, \<lparr>value = js ''b''\<rparr>, \<lparr>value = js ''c''\<rparr>]"
    by (simp add: eval_defs)
  have "js ''b'' \<noteq> []" and "js ''d'' \<notin> value ` set (scopes (cells ?m))"
    unfolding l by (simp_all add: js_def)
  with handleLabelRemove_filters [of "js ''b''" ?m] handleLabelRemove_filters [of "js ''d''" ?m]
  show ?thesis unfolding l by (simp add: js_def)
qed

subsection \<open>The external value\<close>

text \<open>
  Claim C5 (parse on load). For a non-empty external string \<open>v\<close> the list becomes one
  token per piece of the split, in split order. Joining the tokens with the separator
  gives \<open>v\<close> back, so no piece is lost or merged; there is one token more than \<open>v\<close>
  has spaces, and no token contains a space, so consecutive separators give empty-valued
  tokens; and from whatever separator-free pieces \<open>v\<close> was joined, duplicates and
  empty pieces included, the list is exactly those pieces. The list is rebuilt so on
  mounting and whenever the parent renders another \<open>value\<close>.
\<close>

theorem parse_on_load:
  assumes "v \<noteq> []"
  shows "scopes (commit (useEffect_value (Some v)) h) = map buildScope (split v SCOPE_SEPARATOR)
       \<and> scopes (cells (mount \<lparr>defaultValue = d, value_prop = Some v\<rparr>))
           = map buildScope (split v SCOPE_SEPARATOR)
       \<and> (value_prop (props m) \<noteq> Some v \<longrightarrow>
            scopes (cells (dispatch m (ValueProp (Some v)))) = map buildScope (split v SCOPE_SEPARATOR))
       \<and> buildScopesString (map buildScope (split v SCOPE_SEPARATOR)) = v
       \<and> length (map buildScope (split v SCOPE_SEPARATOR)) = Suc (count_list v 0x20)
       \<and> (\<forall>t\<in>set (split v SCOPE_SEPARATOR). 0x20 \<notin> set t)
       \<and> (\<forall>ts. ts \<noteq> [] \<and> (\<forall>t\<in>set ts. \<forall>c\<in>set (value t). [c] \<noteq> SCOPE_SEPARATOR)
                \<and> buildScopesString ts = v
              \<longrightarrow> map buildScope (split v SCOPE_SEPARATOR) = ts)"
proof -
  have parsed: "scopes (commit (useEffect_value (Some v)) h') = map buildScope (split v SCOPE_SEPARATOR)"
    for h'
    using assms by (simp add: useEffect_value_def scopes_commit_SetScopes)
  have "scopes (cells (mount \<lparr>defaultValue = d, value_prop = Some v\<rparr>))
          = scopes (commit (useEffect_value (Some v)) initial_hooks)"
    by (simp add: mount_def flush_def Let_def)
  moreover have "scopes (cells (dispatch m (ValueProp (Some v))))
          = scopes (commit (useEffect_value (Some v)) (cells m))"
    if "value_prop (props m) \<noteq> Some v"
    using that by (auto simp: flush_def Let_def)
  moreover have "length (split v SCOPE_SEPARATOR) = Suc (count_list v 0x20)"
    by (simp add: split_def SEP length_split_from)
  moreover have "\<forall>t\<in>set (split v SCOPE_SEPARATOR). 0x20 \<notin> set t"
    using split_from_free [of "0x20" "[]" _ v] by (auto simp: split_def SEP)
  moreover have "map buildScope (split v SCOPE_SEPARATOR) = ts"
    if "ts \<noteq> []" "\<forall>t\<in>set ts. \<forall>c\<in>set (value t). [c] \<noteq> SCOPE_SEPARATOR" "buildScopesString ts = v"
    for ts
    using parse_serialized [OF that(2) that(1)] that(3) by simp
  ultimately show ?thesis
    by (simp add: parsed buildScopesString_parsed)
qed

theorem parse_on_load_witness:
  "scopes (commit (useEffect_value (Some (js ''a a  b''))) initial_hooks)
     = [\<lparr>value = js ''a''\<rparr>, \<lparr>value = js ''a''\<rparr>, \<lparr>value = js ''''\<rparr>, \<lparr>value = js ''b''\<rparr>]
   \<and> buildScopesString [\<lparr>value = js ''a''\<rparr>, \<lparr>value = js ''a''\<rparr>, \<lparr>value = js ''''\<rparr>, \<lparr>value = js ''b''\<rparr>]
     = js ''a a  b''"
proof -
  let ?ts = "[\<lparr>value = js ''a''\<rparr>, \<lparr>value = js ''a''\<rparr>, \<lparr>value = js ''''\<rparr>, \<lparr>value = js ''b''\<rparr>]"
  have v: "js ''a a  b'' \<noteq> []" by (simp add: js_def)
  have s: "buildScopesString ?ts = js ''a a  b''"
    by (simp add: buildScopesString_def buildScopeString_def js_def SCOPE_SEPARATOR_def)
  have f: "\<forall>t\<in>set ?ts. \<forall>c\<in>set (value t). [c] \<noteq> SCOPE_SEPARATOR"
    by (simp add: js_def SCOPE_SEPARATOR_def)
  from parse_on_load [OF v, of initial_hooks] s f show ?thesis by (simp only:) blast
qed

text \<open>
  Claim C6 (an empty external value changes nothing). For an empty or undefined
  \<open>value\<close> the effect makes no setter call; rendering the parent's new \<open>value\<close>
  leaves the cells, the list among them, and the calls of \<open>onChange\<close> as they were.
\<close>

theorem empty_value_keeps_list:
  assumes "isEmpty v"
  shows "useEffect_value v = []
       \<and> commit (useEffect_value v) h = h
       \<and> cells (dispatch m (ValueProp v)) = cells m
       \<and> onChange_calls (dispatch m (ValueProp v)) = onChange_calls m"
  using assms by (simp add: useEffect_value_def commit_def flush_def Let_def)

theorem empty_value_keeps_list_witness:
  "scopes (cells (run \<lparr>defaultValue = js ''openid'', value_prop = Some (js ''openid'')\<rparr>
                      [ValueProp (Some (js ''''))])) = [\<lparr>value = js ''openid''\<rparr>]
   \<and> scopes (cells (run \<lparr>defaultValue = js ''openid'', value_prop = Some (js ''openid'')\<rparr>
                      [ValueProp None])) = [\<lparr>value = js ''openid''\<rparr>]"
proof -
  let ?m = "mount \<lparr>defaultValue = js ''openid'', value_prop = Some (js ''openid'')\<rparr>"
  have l: "scopes (cells ?m) = [\<lparr>value = js ''openid''\<rparr>]"
    by (simp add: eval_defs)
  have "isEmpty (Some (js ''''))" and "isEmpty None" by (simp_all add: js_def)
  from empty_value_keeps_list [OF this(1), of initial_hooks ?m]
       empty_value_keeps_list [OF this(2), of initial_hooks ?m] l
  show ?thesis by (simp add: run_def)
qed

subsection \<open>The empty add\<close>

text \<open>
  Claim C7 (empty add). With an empty pending input the add makes no setter call: a
  click on the add button or the Enter key leaves the whole machine as it was, the list
  and the calls of \<open>onChange\<close> included. Typing an entry that consists of white space
  only leaves the pending input empty (it is trimmed as it is typed), and changes
  neither the list nor the calls of \<open>onChange\<close>; the add that follows is such a no-op.
\<close>

theorem empty_add_noop:
  "(scopeValue (cells m) = [] \<longrightarrow>
      handleScopeAdd (cells m) = []
      \<and> dispatch m ClickAdd = m
      \<and> dispatch m (KeyDown (js ''Enter'')) = m)
   \<and> ((\<forall>c\<in>set w. isWhiteSpace c) \<longrightarrow>
      scopeValue (cells (dispatch m (InputChange w))) = []
      \<and> dispatch (dispatch m (InputChange w)) ClickAdd = dispatch m (InputChange w)
      \<and> dispatch (dispatch m (InputChange w)) (KeyDown (js ''Enter'')) = dispatch m (InputChange w)
      \<and> scopes (cells (dispatch m (InputChange w))) = scopes (cells m)
      \<and> onChange_calls (dispatch m (InputChange w)) = onChange_calls m)"
proof -
  have noop: "dispatch m' ClickAdd = m' \<and> dispatch m' (KeyDown (js ''Enter'')) = m'"
    if "scopeValue (cells m') = []" for m'
    using that by (simp add: handleScopeAdd_empty keyPressed_def flush_Nil)
  have typed: "cells (dispatch m (InputChange w)) = (cells m)\<lparr>scopeValue := trim w\<rparr>"
    and calls: "onChange_calls (dispatch m (InputChange w)) = onChange_calls m"
    by (simp_all add: input_onChange_def flush_def commit_def)
  have "scopeValue (cells (dispatch m (InputChange w))) = []" if "\<forall>c\<in>set w. isWhiteSpace c"
    unfolding typed using that by (simp add: trim_whitespace_only)
  with noop [of m] noop [of "dispatch m (InputChange w)"] typed calls
  show ?thesis by (simp add: handleScopeAdd_empty)
qed

theorem empty_add_noop_witness:
  "run \<lparr>defaultValue = js ''openid'', value_prop = Some (js ''openid'')\<rparr> [ClickAdd]
     = mount \<lparr>defaultValue = js ''openid'', value_prop = Some (js ''openid'')\<rparr>
   \<and> scopes (cells (run \<lparr>defaultValue = js ''openid'', value_prop = Some (js ''openid'')\<rparr>
                       [InputChange (js ''  ''), ClickAdd])) = [\<lparr>value = js ''openid''\<rparr>]
   \<and> onChange_calls (run \<lparr>defaultValue = js ''openid'', value_prop = Some (js ''openid'')\<rparr>
                       [InputChange (js ''  ''), ClickAdd]) = [js '''', js ''openid'']"
proof -
  let ?m = "mount \<lparr>defaultValue = js ''openid'', value_prop = Some (js ''openid'')\<rparr>"
  have m: "?m = \<lparr>props = \<lparr>defaultValue = js ''openid'', value_prop = Some (js ''openid'')\<rparr>,
                  cells = \<lparr>scopeValue = [], scopes = [\<lparr>value = js ''openid''\<rparr>], errorMessage = []\<rparr>,
                  onChange_calls = [js '''', js ''openid'']\<rparr>"
    by (simp add: eval_defs)
  have e: "scopeValue (cells ?m) = []" unfolding m by simp
  have w: "\<forall>c\<in>set (js ''  ''). isWhiteSpace c" by (simp add: js_def isWhiteSpace_def)
  from empty_add_noop [of ?m "js ''  ''"] e w
  have "dispatch ?m ClickAdd = ?m"
    and "dispatch (dispatch ?m (InputChange (js ''  ''))) ClickAdd = dispatch ?m (InputChange (js ''  ''))"
    and "scopes (cells (dispatch ?m (InputChange (js ''  '')))) = scopes (cells ?m)"
    and "onChange_calls (dispatch ?m (InputChange (js ''  ''))) = onChange_calls ?m"
    by blast+
  then show ?thesis unfolding run_def by (simp add: m)
qed

subsection \<open>The default scope\<close>

text \<open>
  Claim C8 (the default scope is protected by the markup only). For a default scope
  (a non-empty \<open>defaultValue\<close>): calling the remove with its value sets the list to
  the tokens with another value, so that no token of the default value remains. The
  remove does not read the properties at all. The markup is what protects the token: no
  label with the default value carries the delete icon, and the click on such a label
  does nothing.
\<close>

theorem default_scope_removable_directly:
  assumes "defaultValue (props m) \<noteq> []"
  shows "scopes (commit (handleLabelRemove (cells m) (defaultValue (props m))) (cells m))
           = filter (\<lambda>t. value t \<noteq> defaultValue (props m)) (scopes (cells m))
       \<and> defaultValue (props m) \<notin>
           value ` set (scopes (commit (handleLabelRemove (cells m) (defaultValue (props m))) (cells m)))
       \<and> (defaultValue (props m), True) \<notin> set (render_labels (props m) (cells m))
       \<and> (\<forall>i. i < length (scopes (cells m)) \<and> value (scopes (cells m) ! i) = defaultValue (props m)
              \<longrightarrow> dispatch m (ClickDelete i) = m)"
proof -
  have "(defaultValue (props m), True) \<notin> set (render_labels (props m) (cells m))"
    by (auto simp: render_labels_def Let_def)
  moreover have "dispatch m (ClickDelete i) = m"
    if "i < length (scopes (cells m))" "value (scopes (cells m) ! i) = defaultValue (props m)" for i
    using that by (simp add: render_labels_def Let_def)
  ultimately show ?thesis
    using assms by (auto simp: scopes_after_remove)
qed

theorem default_scope_removable_directly_witness:
  "render_labels \<lparr>defaultValue = js ''openid'', value_prop = Some (js ''openid profile'')\<rparr>
      (cells (mount \<lparr>defaultValue = js ''openid'', value_prop = Some (js ''openid profile'')\<rparr>))
     = [(js ''openid'', False), (js ''profile'', True)]
   \<and> scopes (commit (handleLabelRemove
        (cells (mount \<lparr>defaultValue = js ''openid'', value_prop = Some (js ''openid profile'')\<rparr>))
        (js ''openid''))
        (cells (mount \<lparr>defaultValue = js ''openid'', value_prop = Some (js ''openid profile'')\<rparr>)))
     = [\<lparr>value = js ''profile''\<rparr>]"
proof -
  let ?p = "\<lparr>defaultValue = js ''openid'', value_prop = Some (js ''openid profile'')\<rparr>"
  have m: "mount ?p = \<lparr>props = ?p,
                  cells = \<lparr>scopeValue = [], scopes = [\<lparr>value = js ''openid''\<rparr>, \<lparr>value = js ''profile''\<rparr>],
                            errorMessage = []\<rparr>,
                  onChange_calls = [js '''', js ''openid profile'']\<rparr>"
    by (simp add: eval_defs)
  have d: "defaultValue (props (mount ?p)) \<noteq> []" unfolding m by (simp add: js_def)
  have r: "render_labels ?p (cells (mount ?p)) = [(js ''openid'', False), (js ''profile'', True)]"
    unfolding m by (simp add: render_labels_def js_def)
  from default_scope_removable_directly [OF d] r show ?thesis
    unfolding m by (simp add: js_def)
qed

subsection \<open>The error message\<close>

text \<open>
  Claim C9 (the error message stays empty). After mounting with any properties and
  after any sequence of events the error message is the empty string, and the message
  element is hidden. Of all setter calls that the handlers and effects make, those on the
  error message carry the empty string.
\<close>

theorem errorMessage_always_empty:
  "errorMessage (cells (run p evs)) = []
   \<and> \<not> message_visible (cells (run p evs))
   \<and> (SetErrorMessage s \<in> set (handleScopeAdd h) \<union> set (handleLabelRemove h x)
          \<union> set (keyPressed h k) \<union> set (input_onChange w) \<union> set (useEffect_value v)
        \<longrightarrow> s = [])"
proof -
  have "errorMessage (cells (run p evs)) = []"
    unfolding run_def by (rule errorMessage_foldl) (rule errorMessage_mount)
  then show ?thesis
    using errorMessage_writes [of s] by (auto simp: message_visible_def)
qed

theorem errorMessage_always_empty_witness:
  "errorMessage (cells (run \<lparr>defaultValue = js ''openid'', value_prop = Some (js ''openid'')\<rparr>
      [InputChange (js ''profile''), ClickAdd, ClickDelete 0, ValueProp (Some (js ''email''))])) = []
   \<and> SetErrorMessage [] \<in> set (handleScopeAdd \<lparr>scopeValue = js ''profile'', scopes = [], errorMessage = []\<rparr>)"
proof -
  have "SetErrorMessage [] \<in> set (handleScopeAdd \<lparr>scopeValue = js ''profile'', scopes = [], errorMessage = []\<rparr>)"
    by (simp add: handleScopeAdd_def js_def)
  with errorMessage_always_empty
    [of "\<lparr>defaultValue = js ''openid'', value_prop = Some (js ''openid'')\<rparr>"
        "[InputChange (js ''profile''), ClickAdd, ClickDelete 0, ValueProp (Some (js ''email''))]"
        "[]" "\<lparr>scopeValue = js ''profile'', scopes = [], errorMessage = []\<rparr>"]
  show ?thesis by blast
qed

subsection \<open>Mounting\<close>

text \<open>
  Claim C10 (notifications on mount). Mounting calls \<open>onChange\<close> first with the
  serialization of the initial, empty list, which is the empty string. With an empty or
  undefined \<open>value\<close> that is the only call. With a non-empty \<open>value\<close> a second call
  follows with the serialization of the parsed list, which is \<open>value\<close> itself. In
  both cases the parent is called at least once.
\<close>

theorem mount_notifies:
  "onChange_calls (mount p) =
     (if isEmpty (value_prop p) then [buildScopesString []]
      else [buildScopesString [], buildScopesString (scopes (cells (mount p)))])
   \<and> buildScopesString [] = []
   \<and> (\<not> isEmpty (value_prop p) \<longrightarrow>
        scopes (cells (mount p)) = map buildScope (split (the (value_prop p)) SCOPE_SEPARATOR)
        \<and> buildScopesString (scopes (cells (mount p))) = the (value_prop p))
   \<and> onChange_calls (mount p) \<noteq> []"
proof -
  have e: "buildScopesString [] = []" by (simp add: buildScopesString_def)
  show ?thesis
  proof (cases "isEmpty (value_prop p)")
    case True
    then show ?thesis
      by (simp add: mount_def useEffect_value_def flush_Nil fireOnChangeEvent_def
            initial_hooks_def e)
  next
    case False
    then have "scopes (cells (mount p)) = map buildScope (split (the (value_prop p)) SCOPE_SEPARATOR)"
      and "onChange_calls (mount p) = [[], buildScopesString (scopes (cells (mount p)))]"
      by (simp_all add: mount_def useEffect_value_def flush_def commit_def fireOnChangeEvent_def
            initial_hooks_def e Let_def)
    with False show ?thesis by (simp add: e buildScopesString_parsed)
  qed
qed

theorem mount_notifies_witness:
  "onChange_calls (mount \<lparr>defaultValue = js ''openid'', value_prop = Some (js ''openid profile'')\<rparr>)
     = [js '''', js ''openid profile'']
   \<and> onChange_calls (mount \<lparr>defaultValue = js ''openid'', value_prop = None\<rparr>) = [js '''']
   \<and> onChange_calls (mount \<lparr>defaultValue = js ''openid'', value_prop = Some (js '''')\<rparr>) = [js '''']"
proof -
  let ?p = "\<lparr>defaultValue = js ''openid'', value_prop = Some (js ''openid profile'')\<rparr>"
  let ?q = "\<lparr>defaultValue = js ''openid'', value_prop = None\<rparr>"
  let ?r = "\<lparr>defaultValue = js ''openid'', value_prop = Some (js '''')\<rparr>"
  have calls: "onChange_calls (mount p) = [[], the (value_prop p)]" if "\<not> isEmpty (value_prop p)" for p
  proof -
    note M = mount_notifies [of p]
    from M [THEN conjunct2, THEN conjunct2, THEN conjunct1] that
    have "buildScopesString (scopes (cells (mount p))) = the (value_prop p)" by blast
    with M [THEN conjunct1] M [THEN conjunct2, THEN conjunct1] that
    show ?thesis by (simp only: if_False)
  qed
  have call: "onChange_calls (mount p) = [[]]" if "isEmpty (value_prop p)" for p
    using mount_notifies [of p, THEN conjunct1] mount_notifies [of p, THEN conjunct2, THEN conjunct1] that
    by (simp only: if_True)
  have "\<not> isEmpty (value_prop ?p)" and "isEmpty (value_prop ?q)" and "isEmpty (value_prop ?r)"
    by (simp_all add: js_def)
  from calls [OF this(1)] call [OF this(2)] call [OF this(3)]
  show ?thesis by (simp add: js_def)
qed

end
